theory Spec2Isabelle
  imports Main "HOL-Library.Multiset"
begin

section \<open>The mesh, as loops.py reads it\<close>

text \<open>
  loops.py reads a BMesh through a handful of attributes: the sequences \<open>bm.verts\<close> and
  \<open>bm.edges\<close>, \<open>edge.verts\<close>, \<open>edge.other_vert\<close>, \<open>edge.link_faces\<close>,
  \<open>vert.link_edges\<close>, \<open>vert.link_faces\<close>, \<open>vert.is_boundary\<close> and \<open>vert.is_wire\<close>.
  Every element is identified with its \<open>index\<close> (a natural number), so that
  \<open>bm.verts[v.index]\<close> is \<open>v\<close> and \<open>bm.edges[e.index]\<close> is \<open>e\<close>; faces occur only as the
  entries of the \<open>link_faces\<close> lists. The lists keep the iteration order of the host.
\<close>

record mesh =
  bm_verts :: "nat list"
  bm_edges :: "nat list"
  edge_verts :: "nat \<Rightarrow> nat \<times> nat"
  link_edges :: "nat \<Rightarrow> nat list"
  edge_link_faces :: "nat \<Rightarrow> nat list"
  vert_link_faces :: "nat \<Rightarrow> nat list"
  is_boundary :: "nat \<Rightarrow> bool"
  is_wire :: "nat \<Rightarrow> bool"

datatype error = AttributeError | IndexError

text \<open>\<open>edge.other_vert(v)\<close>: the other end of the edge, or Python's None when \<open>v\<close> is
  not on the edge.\<close>

definition other_vert :: "mesh \<Rightarrow> nat \<Rightarrow> nat \<Rightarrow> nat option" where
  "other_vert m e v =
     (if fst (edge_verts m e) = v then Some (snd (edge_verts m e))
      else if snd (edge_verts m e) = v then Some (fst (edge_verts m e))
      else None)"

definition is_pole :: "mesh \<Rightarrow> nat \<Rightarrow> bool" where
  "is_pole m v \<longleftrightarrow>
     length (link_edges m v) + (if is_boundary m v then 1 else 0) + (if is_wire m v then 1 else 0)
       \<noteq> (4::nat)"

record PureEdgeLoop =
  vertices :: "nat list"
  edges :: "nat list"
  edge_set :: "nat set"

text \<open>\<open>PureEdgeLoop(tuple(vertices), tuple(edges), frozenset(edges))\<close>, the value every
  return of find_loop builds.\<close>

definition mk_loop :: "nat list \<Rightarrow> nat list \<Rightarrow> PureEdgeLoop" where
  "mk_loop vs es = \<lparr>vertices = vs, edges = es, edge_set = set es\<rparr>"

text \<open>\<open>is_closed\<close> compares \<open>vertices[0]\<close> with \<open>vertices[-1]\<close>; both reads raise
  IndexError on an empty tuple.\<close>

definition is_closed :: "PureEdgeLoop \<Rightarrow> error + bool" where
  "is_closed l = (if vertices l = [] then Inl IndexError
                  else Inr (hd (vertices l) = last (vertices l)))"



section \<open>find_loop\<close>

text \<open>\<open>not any(face in next_edge.link_faces for face in last_edge.link_faces)\<close>\<close>

definition no_shared_face :: "mesh \<Rightarrow> nat \<Rightarrow> nat \<Rightarrow> bool" where
  "no_shared_face m last_edge next_edge \<longleftrightarrow>
     \<not> (\<exists>face \<in> set (edge_link_faces m last_edge). face \<in> set (edge_link_faces m next_edge))"

text \<open>The \<open>for next_edge in head.link_edges\<close> loop stops at the first edge that passes the
  test; \<open>None\<close> is the \<open>else\<close> branch of the \<open>for\<close>.\<close>

definition next_edge :: "mesh \<Rightarrow> nat \<Rightarrow> nat \<Rightarrow> nat option" where
  "next_edge m last_edge head = find (no_shared_face m last_edge) (link_edges m head)"

text \<open>
  The \<open>while True\<close> loop of find_loop. Its state is \<open>last_edge\<close>, \<open>head\<close> and the two
  growing lists (\<open>tail\<close> is written and never read). The loop has no bound, so the
  result is an option: \<open>None\<close> is a walk that never returns. An \<open>other_vert\<close> that gives
  None makes the following \<open>head.index\<close> raise AttributeError.
\<close>

partial_function (option) find_loop_walk ::
  "mesh \<Rightarrow> nat \<Rightarrow> nat set \<Rightarrow> nat \<Rightarrow> nat \<Rightarrow> nat list \<Rightarrow> nat list \<Rightarrow> (error + PureEdgeLoop) option"
where
  "find_loop_walk m edge stop_set last_edge head vs es =
     (if is_pole m head \<or> head \<in> stop_set then Some (Inr (mk_loop vs es))
      else case next_edge m last_edge head of
        None \<Rightarrow> Some (Inr (mk_loop vs es))
      | Some ne \<Rightarrow>
          if ne = edge then Some (Inr (mk_loop vs es))
          else (case other_vert m ne head of
                  None \<Rightarrow> Some (Inl AttributeError)
                | Some head' \<Rightarrow> find_loop_walk m edge stop_set ne head' (vs @ [head']) (es @ [ne])))"

text \<open>\<open>find_loop(edge, start, stop_set)\<close>; a \<open>stop_set\<close> of None is the empty set.\<close>

definition find_loop :: "mesh \<Rightarrow> nat \<Rightarrow> nat \<Rightarrow> nat set \<Rightarrow> (error + PureEdgeLoop) option" where
  "find_loop m edge start stop_set =
     (case other_vert m edge start of
        None \<Rightarrow> Some (Inl AttributeError)
      | Some head \<Rightarrow> find_loop_walk m edge stop_set edge head [start, head] [edge])"


text \<open>When the walk returns a chain: at a pole or a vertex of the stop set, when no edge
  of the head passes the test, or when the edge chosen is the starting edge.\<close>

definition walk_stops :: "mesh \<Rightarrow> nat \<Rightarrow> nat set \<Rightarrow> nat \<Rightarrow> nat \<Rightarrow> bool" where
  "walk_stops m edge stop_set last_edge head \<longleftrightarrow>
     is_pole m head \<or> head \<in> stop_set \<or> next_edge m last_edge head = None
     \<or> next_edge m last_edge head = Some edge"

text \<open>
  A Python set is iterated in an order the language does not fix. The order is a
  parameter \<open>perm\<close>, a function from the list of the elements inserted to the list the
  iteration yields; a \<open>perm\<close> that does not return a rearrangement of the distinct elements
  is replaced by the order of first insertion.
\<close>

definition set_iter :: "(nat list \<Rightarrow> nat list) \<Rightarrow> nat list \<Rightarrow> nat list" where
  "set_iter perm xs = (if mset (perm xs) = mset (remdups xs) then perm xs else remdups xs)"

section \<open>pure_edge_loops and pure_edge_loop\<close>






definition pure_edge_loop :: "mesh \<Rightarrow> nat \<Rightarrow> (error + PureEdgeLoop) option" where
  "pure_edge_loop m edge =
     (case find_loop m edge (fst (edge_verts m edge)) {} of
        None \<Rightarrow> None
      | Some (Inl err) \<Rightarrow> Some (Inl err)
      | Some (Inr partial) \<Rightarrow>
          if hd (vertices partial) = last (vertices partial) then Some (Inr partial)
          else (case find_loop m (last (edges partial)) (last (vertices partial)) {} of
                  None \<Rightarrow> None
                | Some (Inl err) \<Rightarrow> Some (Inl err)
                | Some (Inr result) \<Rightarrow>
                    if last (edges result) = edge
                    then Some (Inr \<lparr>vertices = rev (vertices result), edges = rev (edges result),
                                    edge_set = set (edges result)\<rparr>)
                    else Some (Inr result)))"


section \<open>get_edge_loops\<close>

record LoopSearchNode =
  length' :: nat
  end_vertex :: nat
  loops :: "PureEdgeLoop list"

text \<open>The order \<open>dataclass(order=True)\<close> generates compares the tuples
  \<open>(length, end_vertex)\<close>; \<open>loops\<close> has \<open>compare=False\<close>.\<close>

definition node_less :: "LoopSearchNode \<Rightarrow> LoopSearchNode \<Rightarrow> bool" where
  "node_less a b \<longleftrightarrow>
     length' a < length' b \<or> (length' a = length' b \<and> end_vertex a < end_vertex b)"

text \<open>
  The queue is a Python list kept as a binary heap by \<open>heappush\<close> and \<open>heappop\<close> of the
  module heapq. \<open>siftdown\<close> is its \<open>_siftdown(heap, startpos, pos)\<close>: the new item, taken
  from position \<open>pos\<close>, moves up while it is less than its parent. \<open>siftup\<close> is
  \<open>_siftup(heap, pos)\<close>: the smaller child moves up until a leaf is reached
  (\<open>siftup_loop\<close>), the item is put there and moved up again with \<open>siftdown\<close>.
\<close>

function siftdown :: "LoopSearchNode list \<Rightarrow> nat \<Rightarrow> nat \<Rightarrow> LoopSearchNode \<Rightarrow> LoopSearchNode list" where
  "siftdown heap startpos pos newitem =
     (if pos > startpos then
        (let parentpos = (pos - 1) div 2; parent = heap ! parentpos in
         if node_less newitem parent then siftdown (heap[pos := parent]) startpos parentpos newitem
         else heap[pos := newitem])
      else heap[pos := newitem])"
  by pat_completeness auto
termination
  by (relation "measure (\<lambda>(heap, startpos, pos, newitem). pos)") auto

function siftup_loop :: "LoopSearchNode list \<Rightarrow> nat \<Rightarrow> LoopSearchNode list \<times> nat" where
  "siftup_loop heap pos =
     (let childpos = 2 * pos + 1 in
      if childpos < length heap then
        (let rightpos = childpos + 1;
             childpos' = (if rightpos < length heap \<and> \<not> node_less (heap ! childpos) (heap ! rightpos)
                          then rightpos else childpos)
         in siftup_loop (heap[pos := heap ! childpos']) childpos')
      else (heap, pos))"
  by pat_completeness auto
termination
  by (relation "measure (\<lambda>(heap, pos). length heap - pos)") (auto simp: Let_def)

definition siftup :: "LoopSearchNode list \<Rightarrow> nat \<Rightarrow> LoopSearchNode list" where
  "siftup heap pos =
     (let newitem = heap ! pos; (heap', pos') = siftup_loop heap pos
      in siftdown heap' pos pos' newitem)"

text \<open>\<open>heappush\<close> appends the item and sifts it; \<open>heappop\<close> removes the last element
  and, if the heap is not empty then, returns the root and sifts the removed element from
  the root. The loop calls \<open>heappop\<close> on a queue that is not empty.\<close>

definition heappush :: "LoopSearchNode list \<Rightarrow> LoopSearchNode \<Rightarrow> LoopSearchNode list" where
  "heappush heap item = siftdown (heap @ [item]) 0 (length heap) item"

definition heappop :: "LoopSearchNode list \<Rightarrow> LoopSearchNode \<times> LoopSearchNode list" where
  "heappop heap =
     (let lastelt = last heap; heap' = butlast heap in
      if heap' \<noteq> [] then (heap' ! 0, siftup (heap'[0 := lastelt]) 0) else (lastelt, heap'))"

definition MAX_EDGE_LOOPS :: nat where
  "MAX_EDGE_LOOPS = 10"

text \<open>The \<open>for loop_edge in v.link_edges\<close> loop: an edge already in a loop of the candidate
  is skipped; every other edge is walked from \<open>v\<close> with the stop set, and the candidate
  extended by that loop is pushed with the total of the lengths of its edge lists.\<close>

fun expand :: "mesh \<Rightarrow> nat set \<Rightarrow> nat \<Rightarrow> LoopSearchNode \<Rightarrow> nat list \<Rightarrow> LoopSearchNode list
    \<Rightarrow> (error + LoopSearchNode list) option" where
  "expand m stop_set v candidate [] queue = Some (Inr queue)"
| "expand m stop_set v candidate (loop_edge # rest) queue =
     (if \<exists>loop \<in> set (loops candidate). loop_edge \<in> edge_set loop
      then expand m stop_set v candidate rest queue
      else case find_loop m loop_edge v stop_set of
        None \<Rightarrow> None
      | Some (Inl err) \<Rightarrow> Some (Inl err)
      | Some (Inr next_loop) \<Rightarrow>
          (let new_sequence = loops candidate @ [next_loop];
               total_edges = sum_list (map (\<lambda>loop. length (edges loop)) new_sequence)
           in expand m stop_set v candidate rest
                (heappush queue \<lparr>length' = total_edges, end_vertex = last (vertices next_loop),
                                 loops = new_sequence\<rparr>)))"

text \<open>The \<open>while queue\<close> loop; \<open>first\<close> is \<open>pure_loop.vertices[0]\<close>, the only vertex of
  the stop set. The variable \<open>shortest_match\<close> is written and never read.\<close>

partial_function (option) search :: "mesh \<Rightarrow> nat \<Rightarrow> LoopSearchNode list \<Rightarrow> nat set \<Rightarrow> nat set list
    \<Rightarrow> (error + nat set list) option" where
  "search m first queue visited_verts all_loops =
     (if queue = [] then Some (Inr all_loops)
      else (let (candidate, queue') = heappop queue in
        if length all_loops > MAX_EDGE_LOOPS then Some (Inr all_loops)
        else if end_vertex candidate = first
          then search m first queue' visited_verts
                 (all_loops @ [\<Union> (set (map edge_set (loops candidate)))])
        else if end_vertex candidate \<in> visited_verts then search m first queue' visited_verts all_loops
        else (case expand m {first} (end_vertex candidate) candidate
                     (link_edges m (end_vertex candidate)) queue' of
                None \<Rightarrow> None
              | Some (Inl err) \<Rightarrow> Some (Inl err)
              | Some (Inr queue'') \<Rightarrow>
                  search m first queue'' (insert (end_vertex candidate) visited_verts) all_loops)))"

text \<open>\<open>get_edge_loops(bm, edge)\<close>\<close>

definition get_edge_loops :: "mesh \<Rightarrow> nat \<Rightarrow> (error + nat set list) option" where
  "get_edge_loops m edge =
     (case pure_edge_loop m edge of
        None \<Rightarrow> None
      | Some (Inl err) \<Rightarrow> Some (Inl err)
      | Some (Inr pure_loop) \<Rightarrow>
          (case is_closed pure_loop of
             Inl err \<Rightarrow> Some (Inl err)
           | Inr True \<Rightarrow> Some (Inr [edge_set pure_loop])
           | Inr False \<Rightarrow>
               search m (hd (vertices pure_loop))
                 [\<lparr>length' = length (edges pure_loop), end_vertex = last (vertices pure_loop),
                   loops = [pure_loop]\<rparr>]
                 {} [edge_set pure_loop]))"

section \<open>find_shortest_path\<close>

text \<open>
  \<open>vert_to_verts\<close>, the adjacency lists the first loop builds: for every edge of
  \<open>bm.edges\<close> whose index is not excluded and for both of its \<open>verts\<close>, the other end is
  appended to the list of that vertex. The entry of a vertex with no edge is the empty list
  of the \<open>defaultdict\<close>.
\<close>

definition vert_to_verts :: "mesh \<Rightarrow> nat set \<Rightarrow> nat \<Rightarrow> nat list" where
  "vert_to_verts m exclude_indices v =
     concat (map (\<lambda>edge. if edge \<in> exclude_indices then []
                          else (if fst (edge_verts m edge) = v then [snd (edge_verts m edge)] else [])
                             @ (if snd (edge_verts m edge) = v then [fst (edge_verts m edge)] else []))
                 (bm_edges m))"

text \<open>\<open>any(face in bm.verts[vert].link_faces for face in bm.verts[path[-1]].link_faces)\<close>\<close>

definition shares_face :: "mesh \<Rightarrow> nat \<Rightarrow> nat \<Rightarrow> bool" where
  "shares_face m vert prev \<longleftrightarrow>
     (\<exists>face \<in> set (vert_link_faces m prev). face \<in> set (vert_link_faces m vert))"

text \<open>The elements of the set \<open>non_sharing\<close>, in the order they are inserted.\<close>

definition non_sharing :: "mesh \<Rightarrow> nat list \<Rightarrow> nat list \<Rightarrow> nat list" where
  "non_sharing m neighbours path =
     filter (\<lambda>vert. path \<noteq> [] \<and> \<not> shares_face m vert (last path)) neighbours"

text \<open>The two \<open>queue.extend\<close> calls: first the vertices of \<open>non_sharing\<close> in the order the
  set is iterated, then the neighbours that are not in it, in list order.\<close>

definition enqueue :: "(nat list \<Rightarrow> nat list) \<Rightarrow> mesh \<Rightarrow> nat set \<Rightarrow> nat \<Rightarrow> nat list
    \<Rightarrow> (nat \<times> nat list) list" where
  "enqueue perm m exclude_indices current_vert path =
     (let neighbours = vert_to_verts m exclude_indices current_vert;
          ns = non_sharing m neighbours path
      in map (\<lambda>vert. (vert, path @ [current_vert])) (set_iter perm ns)
       @ map (\<lambda>vert. (vert, path @ [current_vert])) (filter (\<lambda>vert. vert \<notin> set ns) neighbours))"

text \<open>The ends of the edges of the mesh; finitely many, which bounds the search.\<close>

definition mesh_ends :: "mesh \<Rightarrow> nat set" where
  "mesh_ends m = (\<Union>edge \<in> set (bm_edges m). {fst (edge_verts m edge), snd (edge_verts m edge)})"

text \<open>The \<open>while queue\<close> loop: \<open>popleft\<close>, skip a vertex already searched, return at
  \<open>end\<close>, otherwise enqueue the neighbours. An empty queue is the final \<open>return None\<close>.\<close>

function bfs :: "(nat list \<Rightarrow> nat list) \<Rightarrow> mesh \<Rightarrow> nat set \<Rightarrow> nat \<Rightarrow> (nat \<times> nat list) list
    \<Rightarrow> nat set \<Rightarrow> nat list option" where
  "bfs perm m exclude_indices end_v [] searched_verts = None"
| "bfs perm m exclude_indices end_v ((current_vert, path) # queue) searched_verts =
     (if current_vert \<in> searched_verts then bfs perm m exclude_indices end_v queue searched_verts
      else if current_vert = end_v then Some (path @ [current_vert])
      else bfs perm m exclude_indices end_v
             (queue @ enqueue perm m exclude_indices current_vert path)
             (insert current_vert searched_verts))"
  by pat_completeness auto
termination
proof (relation "measures
    [\<lambda>(perm, m, ex, end_v, queue, searched). card ((fst ` set queue \<union> mesh_ends m) - searched),
     \<lambda>(perm, m, ex, end_v, queue, searched). length queue]", goal_cases)
  case 1 show ?case by simp
next
  case (2 perm m ex end_v current_vert path queue searched)
  have fin: "finite (fst ` set ((current_vert, path) # queue) \<union> mesh_ends m - searched)"
    by (simp add: mesh_ends_def)
  have "fst ` set queue \<union> mesh_ends m - searched
      \<subseteq> fst ` set ((current_vert, path) # queue) \<union> mesh_ends m - searched"
    by auto
  from card_mono[OF fin this] show ?case by auto
next
  case (3 perm m ex end_v current_vert path queue searched)
  let ?A = "fst ` set ((current_vert, path) # queue) \<union> mesh_ends m - searched"
  let ?B = "fst ` set (queue @ enqueue perm m ex current_vert path) \<union> mesh_ends m
            - insert current_vert searched"
  have fin: "finite ?A" by (simp add: mesh_ends_def)
  have ends: "set (vert_to_verts m ex current_vert) \<subseteq> mesh_ends m"
    by (auto simp: vert_to_verts_def mesh_ends_def split: if_splits)
  have iter: "set (set_iter perm xs) = set xs" for xs
    by (metis set_iter_def set_mset_mset set_remdups)
  have "fst ` set (enqueue perm m ex current_vert path) \<subseteq> set (vert_to_verts m ex current_vert)"
    by (auto simp: enqueue_def Let_def iter non_sharing_def)
  with ends have "?B \<subseteq> ?A" by auto
  moreover have "current_vert \<in> ?A" "current_vert \<notin> ?B" using 3 by auto
  ultimately have "?B \<subset> ?A" by blast
  from psubset_card_mono[OF fin this] show ?case by simp
qed

definition find_shortest_path :: "(nat list \<Rightarrow> nat list) \<Rightarrow> mesh \<Rightarrow> nat \<Rightarrow> nat \<Rightarrow> nat set
    \<Rightarrow> nat list option" where
  "find_shortest_path perm m start end_v exclude_indices =
     bfs perm m exclude_indices end_v [(start, [])] {}"

text \<open>The same loop, recording the entries it pops from the queue, in order, until it
  returns.\<close>

function pops :: "(nat list \<Rightarrow> nat list) \<Rightarrow> mesh \<Rightarrow> nat set \<Rightarrow> nat \<Rightarrow> (nat \<times> nat list) list
    \<Rightarrow> nat set \<Rightarrow> (nat \<times> nat list) list" where
  "pops perm m exclude_indices end_v [] searched_verts = []"
| "pops perm m exclude_indices end_v ((current_vert, path) # queue) searched_verts =
     (current_vert, path) #
     (if current_vert \<in> searched_verts then pops perm m exclude_indices end_v queue searched_verts
      else if current_vert = end_v then []
      else pops perm m exclude_indices end_v
             (queue @ enqueue perm m exclude_indices current_vert path)
             (insert current_vert searched_verts))"
  by pat_completeness auto
termination
proof (relation "measures
    [\<lambda>(perm, m, ex, end_v, queue, searched). card ((fst ` set queue \<union> mesh_ends m) - searched),
     \<lambda>(perm, m, ex, end_v, queue, searched). length queue]", goal_cases)
  case 1 show ?case by simp
next
  case (2 perm m ex end_v current_vert path queue searched)
  have fin: "finite (fst ` set ((current_vert, path) # queue) \<union> mesh_ends m - searched)"
    by (simp add: mesh_ends_def)
  have "fst ` set queue \<union> mesh_ends m - searched
      \<subseteq> fst ` set ((current_vert, path) # queue) \<union> mesh_ends m - searched"
    by auto
  from card_mono[OF fin this] show ?case by auto
next
  case (3 perm m ex end_v current_vert path queue searched)
  let ?A = "fst ` set ((current_vert, path) # queue) \<union> mesh_ends m - searched"
  let ?B = "fst ` set (queue @ enqueue perm m ex current_vert path) \<union> mesh_ends m
            - insert current_vert searched"
  have fin: "finite ?A" by (simp add: mesh_ends_def)
  have ends: "set (vert_to_verts m ex current_vert) \<subseteq> mesh_ends m"
    by (auto simp: vert_to_verts_def mesh_ends_def split: if_splits)
  have iter: "set (set_iter perm xs) = set xs" for xs
    by (metis set_iter_def set_mset_mset set_remdups)
  have "fst ` set (enqueue perm m ex current_vert path) \<subseteq> set (vert_to_verts m ex current_vert)"
    by (auto simp: enqueue_def Let_def iter non_sharing_def)
  with ends have "?B \<subseteq> ?A" by auto
  moreover have "current_vert \<in> ?A" "current_vert \<notin> ?B" using 3 by auto
  ultimately have "?B \<subset> ?A" by blast
  from psubset_card_mono[OF fin this] show ?case by simp
qed

section \<open>SavedSelectionState\<close>

text \<open>
  What from_context and restore read and write of the context: the selection mode of the
  tool settings, the elements of the edit mesh (the vertices, edges and faces are the
  indices below \<open>n_verts\<close>, \<open>n_edges\<close> and \<open>n_faces\<close>), their \<open>select\<close> flags and the
  selection history, whose last entry is \<open>select_history.active\<close>.
\<close>

datatype py_type = NoneType | BMVert | BMEdge | BMFace

record edit_context =
  mesh_select_mode :: "bool \<times> bool \<times> bool"
  n_verts :: nat
  n_edges :: nat
  n_faces :: nat
  vert_select :: "nat \<Rightarrow> bool"
  edge_select :: "nat \<Rightarrow> bool"
  face_select :: "nat \<Rightarrow> bool"
  select_history :: "(py_type \<times> nat) list"

record SavedSelectionState =
  mode :: "bool \<times> bool \<times> bool"
  selected_verts :: "nat set"
  selected_edges :: "nat set"
  selected_faces :: "nat set"
  active_type :: py_type
  active :: int

text \<open>\<open>select_history.active\<close>: the last element of the history, or None.\<close>

definition history_active :: "edit_context \<Rightarrow> (py_type \<times> nat) option" where
  "history_active c = (if select_history c = [] then None else Some (last (select_history c)))"

definition from_context :: "edit_context \<Rightarrow> SavedSelectionState" where
  "from_context c =
     \<lparr>mode = mesh_select_mode c,
      selected_verts = set (filter (vert_select c) [0..<n_verts c]),
      selected_edges = set (filter (edge_select c) [0..<n_edges c]),
      selected_faces = set (filter (face_select c) [0..<n_faces c]),
      active_type = (case history_active c of None \<Rightarrow> NoneType | Some (ty, i) \<Rightarrow> ty),
      active = (case history_active c of None \<Rightarrow> - 1 | Some (ty, i) \<Rightarrow> int i)\<rparr>"

text \<open>\<open>items[i]\<close> on a sequence of \<open>n\<close> elements: Python counts a negative index from the
  end and raises IndexError outside the range.\<close>

definition py_index :: "nat \<Rightarrow> int \<Rightarrow> error + nat" where
  "py_index n i =
     (if 0 \<le> i \<and> i < int n then Inr (nat i)
      else if - int n \<le> i \<and> i < 0 then Inr (nat (int n + i))
      else Inl IndexError)"

text \<open>\<open>type_to_items.get(self.active_type, [])\<close>, as the length of the sequence found: the
  default \<open>[]\<close> has no element.\<close>

definition items_len :: "edit_context \<Rightarrow> py_type \<Rightarrow> nat" where
  "items_len c ty = (case ty of BMVert \<Rightarrow> n_verts c | BMEdge \<Rightarrow> n_edges c | BMFace \<Rightarrow> n_faces c
                     | NoneType \<Rightarrow> 0)"

text \<open>\<open>select_history.add(element)\<close> of the host: no action if the element is already in
  the history.\<close>

definition history_add :: "(py_type \<times> nat) list \<Rightarrow> py_type \<times> nat \<Rightarrow> (py_type \<times> nat) list" where
  "history_add h x = (if x \<in> set h then h else h @ [x])"

text \<open>The three \<open>for\<close> loops of restore, each writing the \<open>select\<close> flag of every element
  of one kind. What the host does to the flags of the other kinds when a flag is written
  is counted with the flush that follows.\<close>

definition write_flags :: "SavedSelectionState \<Rightarrow> edit_context \<Rightarrow> edit_context" where
  "write_flags s c =
     (if fst (mode s)
        then c\<lparr>vert_select := (\<lambda>v. if v < n_verts c then v \<in> selected_verts s else vert_select c v)\<rparr>
      else if fst (snd (mode s))
        then c\<lparr>edge_select := (\<lambda>e. if e < n_edges c then e \<in> selected_edges s else edge_select c e)\<rparr>
      else c\<lparr>face_select := (\<lambda>f. if f < n_faces c then f \<in> selected_faces s else face_select c f)\<rparr>)"

text \<open>
  \<open>restore\<close>. \<open>bm.select_flush_mode()\<close> belongs to the host and is the parameter
  \<open>flush\<close>, a function on contexts about which nothing is assumed here. The index \<open>items[self.active]\<close> is evaluated before \<open>add\<close> is called, so an
  IndexError leaves the history as the flush left it.
\<close>

definition restore :: "(edit_context \<Rightarrow> edit_context) \<Rightarrow> SavedSelectionState \<Rightarrow> edit_context
    \<Rightarrow> error + edit_context" where
  "restore flush s c =
     (let c1 = c\<lparr>mesh_select_mode := mode s\<rparr>;
          c2 = write_flags s c1;
          c3 = flush c2
      in if active s \<noteq> - 1
         then (case py_index (items_len c3 (active_type s)) (active s) of
                 Inl err \<Rightarrow> Inl err
               | Inr i \<Rightarrow> Inr (c3\<lparr>select_history := history_add (select_history c3) (active_type s, i)\<rparr>))
         else Inr c3)"

section \<open>Well-formed meshes\<close>

text \<open>
  What the host guarantees of every mesh: the \<open>link_edges\<close> of a vertex are edges of the
  mesh that have the vertex as one of their ends, and the ends of every edge are vertices
  of the mesh.
\<close>

definition mesh_ok :: "mesh \<Rightarrow> bool" where
  "mesh_ok m \<longleftrightarrow>
     (\<forall>v \<in> set (bm_verts m). \<forall>e \<in> set (link_edges m v).
        e \<in> set (bm_edges m) \<and> other_vert m e v \<noteq> None)
     \<and> (\<forall>e \<in> set (bm_edges m).
          fst (edge_verts m e) \<in> set (bm_verts m) \<and> snd (edge_verts m e) \<in> set (bm_verts m))"




section \<open>Paths in the mesh graph\<close>

text \<open>The mesh graph with the excluded edges removed: two vertices are adjacent when an
  edge of \<open>bm.edges\<close> whose index is not excluded joins them.\<close>

definition adjacent :: "mesh \<Rightarrow> nat set \<Rightarrow> nat \<Rightarrow> nat \<Rightarrow> bool" where
  "adjacent m ex u w \<longleftrightarrow>
     (\<exists>e \<in> set (bm_edges m). e \<notin> ex \<and> (edge_verts m e = (u, w) \<or> edge_verts m e = (w, u)))"

fun path_in :: "mesh \<Rightarrow> nat set \<Rightarrow> nat list \<Rightarrow> bool" where
  "path_in m ex [] \<longleftrightarrow> False"
| "path_in m ex [v] \<longleftrightarrow> True"
| "path_in m ex (u # w # rest) \<longleftrightarrow> adjacent m ex u w \<and> path_in m ex (w # rest)"

text \<open>\<open>q\<close> is a path from \<open>a\<close> to \<open>b\<close>, as the sequence of its vertices; it has
  \<open>length q - 1\<close> edges.\<close>

definition path_between :: "mesh \<Rightarrow> nat set \<Rightarrow> nat \<Rightarrow> nat \<Rightarrow> nat list \<Rightarrow> bool" where
  "path_between m ex a b q \<longleftrightarrow> q \<noteq> [] \<and> hd q = a \<and> last q = b \<and> path_in m ex q"

text \<open>What holds of the queue and of \<open>searched_verts\<close> at the head of the \<open>while\<close> loop of
  find_shortest_path: \<open>end\<close> has not been searched; every entry carries a path from
  \<open>start\<close> to its vertex; the paths of the queue grow in length and differ by at most one;
  every neighbour of a searched vertex is searched or queued; and every path from \<open>start\<close>
  to an unsearched vertex is matched by a queue entry on an unsearched vertex from which
  the vertex is reached in no more steps in total.\<close>

definition bfs_inv :: "mesh \<Rightarrow> nat set \<Rightarrow> nat \<Rightarrow> nat \<Rightarrow> (nat \<times> nat list) list \<Rightarrow> nat set \<Rightarrow> bool" where
  "bfs_inv m ex start end_v q s \<longleftrightarrow>
     end_v \<notin> s
     \<and> (\<forall>(v, p) \<in> set q. path_between m ex start v (p @ [v]))
     \<and> sorted (map (\<lambda>e. length (snd e)) q)
     \<and> (\<forall>e \<in> set q. length (snd e) \<le> Suc (length (snd (hd q))))
     \<and> (\<forall>u \<in> s. \<forall>w. adjacent m ex u w \<longrightarrow> w \<in> s \<or> w \<in> fst ` set q)
     \<and> (\<forall>x r. x \<notin> s \<longrightarrow> path_between m ex start x r \<longrightarrow>
           (\<exists>(y, p) \<in> set q. y \<notin> s \<and>
              (\<exists>r'. path_between m ex y x r' \<and> length p + length r' \<le> length r)))"

section \<open>Example meshes\<close>

definition lookup :: "'a \<Rightarrow> 'a list \<Rightarrow> nat \<Rightarrow> 'a" where
  "lookup d xs i = (if i < length xs then xs ! i else d)"

text \<open>
  A mesh given by four tables: \<open>edge.verts\<close> for each edge, \<open>vert.link_edges\<close> for each
  vertex, \<open>edge.link_faces\<close> for each edge and \<open>vert.link_faces\<close> for each vertex. The two
  flags are what the host derives from them: a vertex is on a boundary when one of its
  edges has exactly one face, and is a wire vertex when it has edges and none of them has
  a face.
\<close>

definition mesh_of :: "(nat \<times> nat) list \<Rightarrow> nat list list \<Rightarrow> nat list list \<Rightarrow> nat list list \<Rightarrow> mesh" where
  "mesh_of evs les efs vfs =
     \<lparr>bm_verts = [0..<length les], bm_edges = [0..<length evs],
      edge_verts = lookup (0, 0) evs, link_edges = lookup [] les,
      edge_link_faces = lookup [] efs, vert_link_faces = lookup [] vfs,
      is_boundary = (\<lambda>v. \<exists>e \<in> set (lookup [] les v). length (lookup [] efs e) = 1),
      is_wire = (\<lambda>v. lookup [] les v \<noteq> [] \<and> (\<forall>e \<in> set (lookup [] les v). lookup [] efs e = []))\<rparr>"

text \<open>A mesh of loose edges only: no faces, so no vertex is on a boundary and every
  vertex that has an edge is a wire vertex.\<close>

definition wire_mesh :: "(nat \<times> nat) list \<Rightarrow> nat list list \<Rightarrow> mesh" where
  "wire_mesh evs les =
     \<lparr>bm_verts = [0..<length les], bm_edges = [0..<length evs],
      edge_verts = lookup (0, 0) evs, link_edges = lookup [] les,
      edge_link_faces = (\<lambda>e. []), vert_link_faces = (\<lambda>v. []),
      is_boundary = (\<lambda>v. False), is_wire = (\<lambda>v. lookup [] les v \<noteq> [])\<rparr>"

text \<open>Six vertices and five loose edges: edge 0 joins vertices 0 and 1, edge 1 joins 1 and
  2, edge 2 joins 1 and 3, edges 3 and 4 join 2 to 4 and to 5. Vertices 1 and 2 have three
  edges each and both list edge 1 first.\<close>

definition knot :: mesh where
  "knot = wire_mesh [(0,1), (1,2), (1,3), (2,4), (2,5)] [[0], [1,0,2], [1,3,4], [2], [3], [4]]"

text \<open>Four vertices and three loose edges that meet in vertex 1: edge 0 to vertex 0, edge
  1 to vertex 2, edge 2 to vertex 3. Vertex 1 lists edge 1 first.\<close>

definition spur :: mesh where
  "spur = wire_mesh [(0,1), (1,2), (1,3)] [[0], [1,0,2], [1], [2]]"

text \<open>The complete graph on four vertices, as six loose edges.\<close>

definition k4 :: mesh where
  "k4 = wire_mesh [(0,1), (0,2), (0,3), (1,2), (1,3), (2,3)] [[0,1,2], [0,3,4], [3,1,5], [5,2,4]]"


text \<open>A flat grid of two by two quads: vertices 0 to 8 row by row (4 is the centre), the
  four faces 0 to 3. Edges 3 and 8 are the two inner edges above and below the centre;
  edge 3 is stored from the centre outwards and edge 8 towards the centre.\<close>

definition grid22 :: mesh where
  "grid22 = mesh_of
     [(0,1), (0,3), (1,2), (4,1), (2,5), (3,4), (3,6), (4,5), (7,4), (5,8), (6,7), (7,8)]
     [[0,1], [0,2,3], [2,4], [1,5,6], [3,5,7,8], [4,7,9], [6,10], [8,10,11], [9,11]]
     [[0], [0], [1], [0,1], [1], [0,2], [2], [1,3], [2,3], [3], [2], [3]]
     [[0], [0,1], [1], [0,2], [0,1,2,3], [1,3], [2], [2,3], [3]]"

section \<open>Example selection states\<close>

text \<open>An edit mesh of three vertices and two edges in vertex mode: vertex 0 is selected and
  is the active element.\<close>

definition ctx3 :: edit_context where
  "ctx3 = \<lparr>mesh_select_mode = (True, False, False), n_verts = 3, n_edges = 2, n_faces = 0,
            vert_select = (\<lambda>v. v = 0), edge_select = (\<lambda>e. False), face_select = (\<lambda>f. False),
            select_history = [(BMVert, 0)]\<rparr>"

text \<open>The same mesh before three of its vertices were deleted: six vertices, vertices 0 and
  5 selected, vertex 5 active.\<close>

definition ctx6 :: edit_context where
  "ctx6 = \<lparr>mesh_select_mode = (True, False, False), n_verts = 6, n_edges = 5, n_faces = 0,
            vert_select = (\<lambda>v. v = 0 \<or> v = 5), edge_select = (\<lambda>e. False), face_select = (\<lambda>f. False),
            select_history = [(BMVert, 0), (BMVert, 5)]\<rparr>"

text \<open>A state built by hand whose active type is none of the three element types.\<close>

definition untyped_state :: SavedSelectionState where
  "untyped_state = \<lparr>mode = (True, False, False), selected_verts = {0}, selected_edges = {},
                    selected_faces = {}, active_type = NoneType, active = 0\<rparr>"

text \<open>A flush that leaves vertices and history alone and deselects every edge and face.\<close>

definition flush_down :: "edit_context \<Rightarrow> edit_context" where
  "flush_down c = c\<lparr>edge_select := (\<lambda>e. False), face_select := (\<lambda>f. False)\<rparr>"

text \<open>Six vertices and eight loose edges; vertices 1 and 4 have two edges and are poles,
  the other four have three edges each.\<close>

definition tangle :: mesh where
  "tangle = wire_mesh [(2,5), (4,2), (1,5), (0,3), (1,0), (5,0), (4,3), (2,3)]
                      [[4,5,3], [2,4], [1,0,7], [3,7,6], [6,1], [2,0,5]]"

section \<open>Evaluating the example meshes\<close>

lemma lookup_Nil: "lookup d [] i = d"
  by (simp add: lookup_def)

lemma lookup_0: "lookup d (x # xs) 0 = x"
  by (simp add: lookup_def)

lemma lookup_Suc: "lookup d (x # xs) (Suc n) = lookup d xs n"
  by (simp add: lookup_def)

lemma lookup_numeral: "lookup d (x # xs) (numeral k) = lookup d xs (pred_numeral k)"
  by (simp add: lookup_def numeral_eq_Suc)

lemma no_shared_face_eval:
  "no_shared_face m a b \<longleftrightarrow>
     list_all (\<lambda>face. face \<notin> set (edge_link_faces m b)) (edge_link_faces m a)"
  by (auto simp: no_shared_face_def list_all_iff)

lemmas mesh_eval = mesh_of_def wire_mesh_def lookup_Nil lookup_0 lookup_Suc lookup_numeral
  is_pole_def next_edge_def no_shared_face_eval other_vert_def


lemma mesh_ok_spur: "mesh_ok spur"
  by (simp add: mesh_ok_def spur_def mesh_eval)


section \<open>Properties of find_loop\<close>

text \<open>An invariant rule for the walk: a property that holds of the first state and is kept
  by every step that continues holds of the state the walk returns from.\<close>

lemma find_loop_walk_inv:
  assumes run: "find_loop_walk m edge stop le h vs es = Some r"
    and init: "I le h vs es"
    and step: "\<And>le h vs es ne h'. I le h vs es \<Longrightarrow> \<not> walk_stops m edge stop le h \<Longrightarrow>
       next_edge m le h = Some ne \<Longrightarrow> other_vert m ne h = Some h' \<Longrightarrow> I ne h' (vs @ [h']) (es @ [ne])"
  shows "(\<exists>le h vs es. I le h vs es \<and> walk_stops m edge stop le h \<and> r = Inr (mk_loop vs es))
       \<or> (\<exists>le h vs es ne. I le h vs es \<and> \<not> walk_stops m edge stop le h \<and>
             next_edge m le h = Some ne \<and> other_vert m ne h = None \<and> r = Inl AttributeError)"
    (is "?Q r")
proof -
  have "m' = m \<and> edge' = edge \<and> stop' = stop \<and> I le h vs es \<longrightarrow> ?Q r"
    if "find_loop_walk m' edge' stop' le h vs es = Some r" for m' edge' stop'
    using that
  proof (rule find_loop_walk.raw_induct
      [where P = "\<lambda>m' edge' stop' le h vs es r.
         m' = m \<and> edge' = edge \<and> stop' = stop \<and> I le h vs es \<longrightarrow> ?Q r", rotated])
    fix walk :: "mesh \<Rightarrow> nat \<Rightarrow> nat set \<Rightarrow> nat \<Rightarrow> nat \<Rightarrow> nat list \<Rightarrow> nat list \<Rightarrow> (error + PureEdgeLoop) option"
    fix m' edge' stop' le h vs es r
    assume IH: "\<And>m' edge' stop' le h vs es r. walk m' edge' stop' le h vs es = Some r \<Longrightarrow>
       m' = m \<and> edge' = edge \<and> stop' = stop \<and> I le h vs es \<longrightarrow> ?Q r"
    assume body: "(if is_pole m' h \<or> h \<in> stop' then Some (Inr (mk_loop vs es))
      else case next_edge m' le h of
        None \<Rightarrow> Some (Inr (mk_loop vs es))
      | Some ne \<Rightarrow>
          if ne = edge' then Some (Inr (mk_loop vs es))
          else (case other_vert m' ne h of
                  None \<Rightarrow> Some (Inl AttributeError)
                | Some head' \<Rightarrow> walk m' edge' stop' ne head' (vs @ [head']) (es @ [ne]))) = Some r"
    show "m' = m \<and> edge' = edge \<and> stop' = stop \<and> I le h vs es \<longrightarrow> ?Q r"
    proof
      assume a: "m' = m \<and> edge' = edge \<and> stop' = stop \<and> I le h vs es"
      show "?Q r"
      proof (cases "walk_stops m edge stop le h")
        case True
        with body a have "r = Inr (mk_loop vs es)"
          by (auto simp: walk_stops_def split: if_splits option.splits)
        with True a show ?thesis by blast
      next
        case False
        then obtain ne where ne: "next_edge m le h = Some ne" "ne \<noteq> edge"
          by (auto simp: walk_stops_def)
        show ?thesis
        proof (cases "other_vert m ne h")
          case None
          with body a False ne have "r = Inl AttributeError"
            by (auto simp: walk_stops_def)
          with None False a ne show ?thesis by blast
        next
          case (Some h')
          with body a False ne have "walk m edge stop ne h' (vs @ [h']) (es @ [ne]) = Some r"
            by (auto simp: walk_stops_def)
          moreover have "I ne h' (vs @ [h']) (es @ [ne])"
            using step a False ne Some by blast
          ultimately show ?thesis using IH by blast
        qed
      qed
    qed
  qed
  with run init show ?thesis by blast
qed








text \<open>C10 (the walk of find_loop returns on every finite mesh): on the mesh \<open>knot\<close> the walk
  from vertex 0 across edge 0 reaches vertex 1, takes edge 1 to vertex 2, takes edge 1 back
  to vertex 1, and so on for ever; it never chooses edge 0 again and never returns.\<close>

theorem find_loop_knot_diverges: "find_loop knot 0 0 {} = None"
proof (cases "find_loop knot 0 0 {}")
  case None then show ?thesis .
next
  case (Some r)
  have "other_vert knot 0 0 = Some 1" by (simp add: other_vert_def knot_def wire_mesh_def lookup_def)
  with Some have run: "find_loop_walk knot 0 {} 0 1 [0, 1] [0] = Some r" by (simp add: find_loop_def)
  define I where "I = (\<lambda>(le::nat) (h::nat) (vs::nat list) (es::nat list). le \<in> {0, 1} \<and> h \<in> {1, 2})"
  have stops: "\<not> walk_stops knot 0 {} le h" if "I le h vs es" for le h vs es
    using that by (auto simp: I_def walk_stops_def is_pole_def next_edge_def no_shared_face_def
        knot_def wire_mesh_def lookup_def)
  have pres: "I ne h' (vs @ [h']) (es @ [ne])"
    if "I le h vs es" "\<not> walk_stops knot 0 {} le h" "next_edge knot le h = Some ne" "other_vert knot ne h = Some h'"
    for le h vs es ne h'
    using that by (auto simp: I_def next_edge_def no_shared_face_def other_vert_def
        knot_def wire_mesh_def lookup_def split: if_splits)
  have noerr: "other_vert knot ne h \<noteq> None"
    if "I le h vs es" "next_edge knot le h = Some ne" for le h vs es ne
    using that by (auto simp: I_def next_edge_def no_shared_face_def other_vert_def
        knot_def wire_mesh_def lookup_def split: if_splits)
  have init: "I 0 1 [0, 1] [0]" by (simp add: I_def)
  have D: "(\<exists>le h vs es. I le h vs es \<and> walk_stops knot 0 {} le h \<and> r = Inr (mk_loop vs es))
       \<or> (\<exists>le h vs es ne. I le h vs es \<and> \<not> walk_stops knot 0 {} le h \<and>
             next_edge knot le h = Some ne \<and> other_vert knot ne h = None \<and> r = Inl AttributeError)"
    by (rule find_loop_walk_inv[of knot 0 "{}" 0 1 "[0,1]" "[0]" r I, OF run init]) (rule pres)
  then show ?thesis
  proof
    assume "\<exists>le h vs es. I le h vs es \<and> walk_stops knot 0 {} le h \<and> r = Inr (mk_loop vs es)"
    then show ?thesis using stops by blast
  next
    assume "\<exists>le h vs es ne. I le h vs es \<and> \<not> walk_stops knot 0 {} le h \<and>
             next_edge knot le h = Some ne \<and> other_vert knot ne h = None \<and> r = Inl AttributeError"
    then show ?thesis using noerr by blast
  qed
qed

section \<open>The closing test of find_loop\<close>




section \<open>pure_edge_loops\<close>











section \<open>Capturing and restoring the selection\<close>





text \<open>C6 (a saved active reference that no longer resolves is tolerated silently): restore
  raises IndexError. The state captured from the mesh of six vertices has vertex 5 active;
  restored on the mesh after vertices were deleted, \<open>bm.verts[5]\<close> is out of range. A state
  whose active type is none of the three element types indexes the empty default list.\<close>

theorem restore_stale_active_raises:
  "restore flush_down (from_context ctx6) ctx3 = Inl IndexError
   \<and> restore flush_down untyped_state ctx3 = Inl IndexError"
  by (simp add: restore_def Let_def from_context_def history_active_def ctx6_def ctx3_def
      untyped_state_def write_flags_def flush_down_def items_len_def py_index_def)

section \<open>Equality of loops and the direction of a walk\<close>







section \<open>The breadth-first search of find_shortest_path\<close>

lemma set_set_iter: "set (set_iter perm xs) = set xs"
  by (metis set_iter_def set_mset_mset set_remdups)

lemma vert_to_verts_adjacent: "w \<in> set (vert_to_verts m ex u) \<longleftrightarrow> adjacent m ex u w"
  by (auto simp: vert_to_verts_def adjacent_def prod_eq_iff split: if_splits)

lemma enqueue_set:
  "set (enqueue perm m ex v path) = (\<lambda>w. (w, path @ [v])) ` {w. adjacent m ex v w}"
proof -
  have "set (non_sharing m nb path) \<subseteq> set nb" for nb by (auto simp: non_sharing_def)
  then show ?thesis
    unfolding enqueue_def Let_def
    by (auto simp: set_set_iter vert_to_verts_adjacent[symmetric])
qed

lemma path_in_nonempty: "path_in m ex q \<Longrightarrow> q \<noteq> []"
  by (cases q) auto

lemma path_in_snoc:
  "path_in m ex q \<Longrightarrow> adjacent m ex (last q) w \<Longrightarrow> path_in m ex (q @ [w])"
  by (induction m ex q rule: path_in.induct) auto

lemma path_in_suffix:
  "path_in m ex (r1 @ u # z # r2) \<Longrightarrow> adjacent m ex u z \<and> path_in m ex (z # r2)"
  by (induction m ex r1 rule: path_in.induct) (auto simp: Cons_eq_append_conv)

lemma crossing:
  "r \<noteq> [] \<Longrightarrow> hd r \<in> S \<Longrightarrow> last r \<notin> S \<Longrightarrow> \<exists>r1 u z r2. r = r1 @ u # z # r2 \<and> u \<in> S \<and> z \<notin> S"
proof (induction r)
  case Nil then show ?case by simp
next
  case (Cons a r)
  show ?case
  proof (cases r)
    case Nil with Cons.prems show ?thesis by simp
  next
    case (Cons b r')
    show ?thesis
    proof (cases "b \<in> S")
      case False
      with Cons Cons.prems have "a # r = [] @ a # b # r' \<and> a \<in> S \<and> b \<notin> S" by simp
      then show ?thesis by blast
    next
      case True
      with Cons Cons.prems Cons.IH obtain r1 u z r2 where "r = r1 @ u # z # r2" "u \<in> S" "z \<notin> S"
        by auto
      then have "a # r = (a # r1) @ u # z # r2 \<and> u \<in> S \<and> z \<notin> S" by simp
      then show ?thesis by blast
    qed
  qed
qed

lemma bfs_inv_init: "bfs_inv m ex start end_v [(start, [])] {}"
  unfolding bfs_inv_def path_between_def by auto


lemma bfs_inv_skip:
  assumes inv: "bfs_inv m ex start end_v ((v, p) # q) s" and v: "v \<in> s"
  shows "bfs_inv m ex start end_v q s"
proof -
  from inv have e: "end_v \<notin> s"
    and P: "\<forall>(v, p) \<in> set ((v, p) # q). path_between m ex start v (p @ [v])"
    and S: "sorted (map (\<lambda>e. length (snd e)) ((v, p) # q))"
    and B: "\<forall>e \<in> set ((v, p) # q). length (snd e) \<le> Suc (length p)"
    and A: "\<forall>u \<in> s. \<forall>w. adjacent m ex u w \<longrightarrow> w \<in> s \<or> w \<in> fst ` set ((v, p) # q)"
    and W: "\<forall>x r. x \<notin> s \<longrightarrow> path_between m ex start x r \<longrightarrow>
           (\<exists>(y, p') \<in> set ((v, p) # q). y \<notin> s \<and>
              (\<exists>r'. path_between m ex y x r' \<and> length p' + length r' \<le> length r))"
    unfolding bfs_inv_def by simp_all
  have P': "\<forall>(v, p) \<in> set q. path_between m ex start v (p @ [v])" using P by auto
  have S': "sorted (map (\<lambda>e. length (snd e)) q)" using S by simp
  have B': "\<forall>e \<in> set q. length (snd e) \<le> Suc (length (snd (hd q)))"
  proof
    fix e assume eq: "e \<in> set q"
    then have "q \<noteq> []" by auto
    then have "hd q \<in> set q" by simp
    with S have "length p \<le> length (snd (hd q))" by auto
    moreover from B eq have "length (snd e) \<le> Suc (length p)" by simp
    ultimately show "length (snd e) \<le> Suc (length (snd (hd q)))" by simp
  qed
  have A': "\<forall>u \<in> s. \<forall>w. adjacent m ex u w \<longrightarrow> w \<in> s \<or> w \<in> fst ` set q"
    using A v by auto
  have W': "\<forall>x r. x \<notin> s \<longrightarrow> path_between m ex start x r \<longrightarrow>
           (\<exists>(y, p') \<in> set q. y \<notin> s \<and>
              (\<exists>r'. path_between m ex y x r' \<and> length p' + length r' \<le> length r))"
  proof (intro allI impI)
    fix x r assume "x \<notin> s" "path_between m ex start x r"
    with W obtain y p' r' where "(y, p') \<in> set ((v, p) # q)" "y \<notin> s"
      "path_between m ex y x r'" "length p' + length r' \<le> length r" by blast
    moreover with v have "(y, p') \<in> set q" by auto
    ultimately show "\<exists>(y, p') \<in> set q. y \<notin> s \<and>
              (\<exists>r'. path_between m ex y x r' \<and> length p' + length r' \<le> length r)" by blast
  qed
  from e P' S' B' A' W' show ?thesis unfolding bfs_inv_def by blast
qed


lemma sorted_map_const: "\<forall>e \<in> set xs. f e = (c::nat) \<Longrightarrow> sorted (map f xs)"
  by (induction xs) auto

lemma bfs_inv_expand:
  assumes inv: "bfs_inv m ex start end_v ((v, p) # q) s" and v: "v \<notin> s" and ve: "v \<noteq> end_v"
  shows "bfs_inv m ex start end_v (q @ enqueue perm m ex v p) (insert v s)"
proof -
  let ?new = "enqueue perm m ex v p"
  from inv have e: "end_v \<notin> s"
    and P: "\<forall>(v, p) \<in> set ((v, p) # q). path_between m ex start v (p @ [v])"
    and S: "sorted (map (\<lambda>e. length (snd e)) ((v, p) # q))"
    and B: "\<forall>e \<in> set ((v, p) # q). length (snd e) \<le> Suc (length p)"
    and A: "\<forall>u \<in> s. \<forall>w. adjacent m ex u w \<longrightarrow> w \<in> s \<or> w \<in> fst ` set ((v, p) # q)"
    and W: "\<forall>x r. x \<notin> s \<longrightarrow> path_between m ex start x r \<longrightarrow>
           (\<exists>(y, p') \<in> set ((v, p) # q). y \<notin> s \<and>
              (\<exists>r'. path_between m ex y x r' \<and> length p' + length r' \<le> length r))"
    unfolding bfs_inv_def by simp_all
  have new: "set ?new = (\<lambda>w. (w, p @ [v])) ` {w. adjacent m ex v w}" by (rule enqueue_set)
  have newlen: "\<forall>e \<in> set ?new. length (snd e) = Suc (length p)" using new by auto
  have lo: "\<forall>e \<in> set q. length p \<le> length (snd e)" using S by auto
  have e': "end_v \<notin> insert v s" using e ve by simp
  have P': "\<forall>(v, p) \<in> set (q @ ?new). path_between m ex start v (p @ [v])"
  proof -
    from P have pv: "path_between m ex start v (p @ [v])" by simp
    have "path_between m ex start w ((p @ [v]) @ [w])" if "adjacent m ex v w" for w
      using pv that path_in_snoc[of m ex "p @ [v]" w]
      by (auto simp: path_between_def hd_append)
    with P new show ?thesis by auto
  qed
  have S': "sorted (map (\<lambda>e. length (snd e)) (q @ ?new))"
  proof -
    have "sorted (map (\<lambda>e. length (snd e)) ?new)"
      using newlen by (rule sorted_map_const)
    moreover have "sorted (map (\<lambda>e. length (snd e)) q)" using S by simp
    ultimately show ?thesis using B newlen by (auto simp: sorted_append)
  qed
  have B': "\<forall>e \<in> set (q @ ?new). length (snd e) \<le> Suc (length (snd (hd (q @ ?new))))"
  proof (cases q)
    case Nil
    show ?thesis
    proof
      fix e assume "e \<in> set (q @ ?new)"
      with Nil have 1: "e \<in> set ?new" by simp
      then have "?new \<noteq> []" by auto
      then have "hd ?new \<in> set ?new" by simp
      with newlen 1 Nil show "length (snd e) \<le> Suc (length (snd (hd (q @ ?new))))" by simp
    qed
  next
    case (Cons a q')
    then have "hd (q @ ?new) = a" "a \<in> set q" by simp_all
    with lo have "length p \<le> length (snd (hd (q @ ?new)))" by simp
    with B newlen show ?thesis by fastforce
  qed
  have A': "\<forall>u \<in> insert v s. \<forall>w. adjacent m ex u w \<longrightarrow> w \<in> insert v s \<or> w \<in> fst ` set (q @ ?new)"
  proof (intro ballI allI impI)
    fix u w assume u: "u \<in> insert v s" and a: "adjacent m ex u w"
    show "w \<in> insert v s \<or> w \<in> fst ` set (q @ ?new)"
    proof (cases "u = v")
      case True
      with a new have "(w, p @ [v]) \<in> set ?new" by auto
      then have "w \<in> fst ` set (q @ ?new)" by force
      then show ?thesis ..
    next
      case False
      with u have "u \<in> s" by simp
      with A a have "w \<in> s \<or> w \<in> fst ` set ((v, p) # q)" by blast
      then show ?thesis by auto
    qed
  qed
  have W': "\<forall>x r. x \<notin> insert v s \<longrightarrow> path_between m ex start x r \<longrightarrow>
           (\<exists>(y, p') \<in> set (q @ ?new). y \<notin> insert v s \<and>
              (\<exists>r'. path_between m ex y x r' \<and> length p' + length r' \<le> length r))"
  proof (intro allI impI)
    fix x r assume x: "x \<notin> insert v s" and r: "path_between m ex start x r"
    from x have "x \<notin> s" by simp
    with W r obtain y py r' where y: "(y, py) \<in> set ((v, p) # q)" "y \<notin> s"
      and r': "path_between m ex y x r'" and le: "length py + length r' \<le> length r" by blast
    show "\<exists>(y, p') \<in> set (q @ ?new). y \<notin> insert v s \<and>
              (\<exists>r'. path_between m ex y x r' \<and> length p' + length r' \<le> length r)"
    proof (cases "y = v")
      case False
      with y have "(y, py) \<in> set (q @ ?new)" "y \<notin> insert v s" by auto
      with r' le show ?thesis by blast
    next
      case True
      from y lo have ppy: "length p \<le> length py" by auto
      from r' True x have "r' \<noteq> []" "hd r' \<in> insert v s" "last r' \<notin> insert v s"
        by (auto simp: path_between_def)
      from crossing[OF this] obtain r1 u z r2 where
        split: "r' = r1 @ u # z # r2" and u: "u \<in> insert v s" and z: "z \<notin> insert v s" by blast
      from r' split have pin: "path_in m ex (r1 @ u # z # r2)" by (simp add: path_between_def)
      from path_in_suffix[OF pin] have uz: "adjacent m ex u z" and pz: "path_in m ex (z # r2)"
        by simp_all
      from r' split have "last (z # r2) = x" by (simp add: path_between_def)
      with pz have zx: "path_between m ex z x (z # r2)" by (simp add: path_between_def)
      from split have len: "Suc (length (z # r2)) \<le> length r'" by simp
      show ?thesis
      proof (cases "u = v")
        case True
        with uz new have "(z, p @ [v]) \<in> set (q @ ?new)" by auto
        moreover have "length (p @ [v]) + length (z # r2) \<le> length r"
          using len ppy le by simp
        ultimately show ?thesis using z zx by blast
      next
        case False
        with u have "u \<in> s" by simp
        with A uz have "z \<in> s \<or> z \<in> fst ` set ((v, p) # q)" by blast
        with z obtain pz' where zq: "(z, pz') \<in> set q" by auto
        with B have "length pz' \<le> Suc (length p)" by auto
        with len ppy le have "length pz' + length (z # r2) \<le> length r" by simp
        moreover from zq have "(z, pz') \<in> set (q @ ?new)" by simp
        ultimately show ?thesis using z zx by blast
      qed
    qed
  qed
  from e' P' S' B' A' W' show ?thesis unfolding bfs_inv_def by blast
qed

lemma bfs_correct:
  assumes "bfs_inv m ex start end_v q s"
  shows "case bfs perm m ex end_v q s of
           None \<Rightarrow> \<not> (\<exists>r. path_between m ex start end_v r)
         | Some path \<Rightarrow> path_between m ex start end_v path
             \<and> (\<forall>r. path_between m ex start end_v r \<longrightarrow> length path \<le> length r)"
  using assms
proof (induction perm m ex end_v q s rule: bfs.induct)
  case (1 perm m ex end_v s)
  from 1 have e: "end_v \<notin> s"
    and W: "\<forall>x r. x \<notin> s \<longrightarrow> path_between m ex start x r \<longrightarrow>
           (\<exists>(y, p') \<in> set []. y \<notin> s \<and>
              (\<exists>r'. path_between m ex y x r' \<and> length p' + length r' \<le> length r))"
    unfolding bfs_inv_def by simp_all
  then have "\<not> (\<exists>r. path_between m ex start end_v r)" by auto
  then show ?case by simp
next
  case (2 perm m ex end_v v p q s)
  note inv = "2.prems"
  show ?case
  proof (cases "v \<in> s")
    case True
    from "2.IH"(1)[OF True bfs_inv_skip[OF inv True]] True show ?thesis by simp
  next
    case False
    show ?thesis
    proof (cases "v = end_v")
      case True
      from inv have P: "path_between m ex start v (p @ [v])"
        and S: "sorted (map (\<lambda>e. length (snd e)) ((v, p) # q))"
        and W: "\<forall>x r. x \<notin> s \<longrightarrow> path_between m ex start x r \<longrightarrow>
           (\<exists>(y, p') \<in> set ((v, p) # q). y \<notin> s \<and>
              (\<exists>r'. path_between m ex y x r' \<and> length p' + length r' \<le> length r))"
        unfolding bfs_inv_def by simp_all
      have "length (p @ [v]) \<le> length r" if r: "path_between m ex start end_v r" for r
      proof -
        from W False True r obtain y py r' where y: "(y, py) \<in> set ((v, p) # q)"
          and r': "path_between m ex y end_v r'" and le: "length py + length r' \<le> length r"
          by blast
        from y S have "length p \<le> length py" by auto
        moreover from r' have "r' \<noteq> []" by (simp add: path_between_def)
        then have "1 \<le> length r'" by (cases r') auto
        ultimately show ?thesis using le by simp
      qed
      with P True False show ?thesis by simp
    next
      case ne: False
      from "2.IH"(2)[OF False ne bfs_inv_expand[OF inv False ne]] False ne show ?thesis by simp
    qed
  qed
qed

lemma bfs_first_pop:
  "end_v \<notin> s \<Longrightarrow>
   bfs perm m ex end_v q s =
     (case find (\<lambda>(v, p). v = end_v) (pops perm m ex end_v q s) of
        None \<Rightarrow> None | Some (v, p) \<Rightarrow> Some (p @ [v]))"
proof (induction perm m ex end_v q s rule: bfs.induct)
  case 1 then show ?case by simp
next
  case (2 perm m ex end_v v p q s)
  then show ?case by auto
qed

lemma adjacent_faces: "adjacent (m\<lparr>vert_link_faces := f\<rparr>) ex = adjacent m ex"
  by (simp add: adjacent_def fun_eq_iff)

lemma path_in_faces: "path_in (m\<lparr>vert_link_faces := f\<rparr>) ex q = path_in m ex q"
proof (induction q rule: induct_list012)
  case (3 u w rest)
  then show ?case by (simp add: adjacent_faces)
qed simp_all

lemma path_between_faces:
  "path_between (m\<lparr>vert_link_faces := f\<rparr>) ex a b q = path_between m ex a b q"
  by (simp add: path_between_def path_in_faces)

lemma find_shortest_path_correct:
  "case find_shortest_path perm m start end_v ex of
     None \<Rightarrow> \<not> (\<exists>r. path_between m ex start end_v r)
   | Some path \<Rightarrow> path_between m ex start end_v path
       \<and> (\<forall>r. path_between m ex start end_v r \<longrightarrow> length path \<le> length r)"
  unfolding find_shortest_path_def by (rule bfs_correct[OF bfs_inv_init])

lemma shares_face_eval:
  "shares_face m vert prev \<longleftrightarrow>
     \<not> list_all (\<lambda>face. face \<notin> set (vert_link_faces m vert)) (vert_link_faces m prev)"
  by (auto simp: shares_face_def list_all_iff)

lemmas path_eval = find_shortest_path_def enqueue_def vert_to_verts_def non_sharing_def
  shares_face_eval set_iter_def Let_def

lemma grid22_detour: "find_shortest_path (\<lambda>xs. xs) grid22 0 2 {0} = Some [0, 3, 4, 5, 2]"
  by (simp add: path_eval grid22_def mesh_of_def lookup_Nil lookup_0 lookup_Suc lookup_numeral)

text \<open>C4: a path that find_shortest_path returns leads from \<open>start\<close> to \<open>end\<close> over edges
  that are not excluded, and no path from \<open>start\<close> to \<open>end\<close> in that graph is shorter. The
  length does not depend on the face-sharing bias: with any other \<open>link_faces\<close> of the
  vertices and any other iteration order of the set \<open>non_sharing\<close>, the search returns a
  path of the same length.\<close>

theorem find_shortest_path_shortest:
  assumes "find_shortest_path perm m start end_v ex = Some path"
  shows "path_between m ex start end_v path
       \<and> (\<forall>r. path_between m ex start end_v r \<longrightarrow> length path \<le> length r)
       \<and> (\<forall>perm' faces. \<exists>path'.
            find_shortest_path perm' (m\<lparr>vert_link_faces := faces\<rparr>) start end_v ex = Some path'
            \<and> length path' = length path)"
proof -
  from find_shortest_path_correct[where perm = perm and m = m and start = start and end_v = end_v and ex = ex] assms
  have p: "path_between m ex start end_v path"
    and least: "\<forall>r. path_between m ex start end_v r \<longrightarrow> length path \<le> length r"
    by simp_all
  have "\<exists>path'. find_shortest_path perm' (m\<lparr>vert_link_faces := faces\<rparr>) start end_v ex = Some path'
          \<and> length path' = length path" for perm' faces
  proof (cases "find_shortest_path perm' (m\<lparr>vert_link_faces := faces\<rparr>) start end_v ex")
    case None
    with find_shortest_path_correct[where perm = perm' and m = "m\<lparr>vert_link_faces := faces\<rparr>" and start = start
      and end_v = end_v and ex = ex]
    have "\<not> (\<exists>r. path_between m ex start end_v r)" by (simp add: path_between_faces)
    with p show ?thesis by blast
  next
    case (Some path')
    with find_shortest_path_correct[where perm = perm' and m = "m\<lparr>vert_link_faces := faces\<rparr>" and start = start
      and end_v = end_v and ex = ex]
    have "path_between m ex start end_v path'"
      and "\<forall>r. path_between m ex start end_v r \<longrightarrow> length path' \<le> length r"
      by (simp_all add: path_between_faces)
    with p least have "length path' = length path" by (simp add: le_antisym)
    with Some show ?thesis by simp
  qed
  with p least show ?thesis by blast
qed

theorem find_shortest_path_shortest_witness:
  "find_shortest_path (\<lambda>xs. xs) grid22 0 2 {0} = Some [0, 3, 4, 5, 2]
   \<and> path_between grid22 {0} 0 2 [0, 3, 4, 5, 2]
   \<and> (\<exists>path'. find_shortest_path rev (grid22\<lparr>vert_link_faces := (\<lambda>v. [])\<rparr>) 0 2 {0} = Some path'
         \<and> length path' = length [0, 3, 4, 5, 2 :: nat])"
proof -
  note t = find_shortest_path_shortest[OF grid22_detour]
  have a: "path_between grid22 {0} 0 2 [0, 3, 4, 5, 2]" by (rule t[THEN conjunct1])
  have "\<forall>perm' faces. \<exists>path'.
      find_shortest_path perm' (grid22\<lparr>vert_link_faces := faces\<rparr>) 0 2 {0} = Some path'
      \<and> length path' = length [0, 3, 4, 5, 2 :: nat]"
    by (rule t[THEN conjunct2, THEN conjunct2])
  then have b: "\<exists>path'. find_shortest_path rev (grid22\<lparr>vert_link_faces := (\<lambda>v. [])\<rparr>) 0 2 {0} = Some path'
      \<and> length path' = length [0, 3, 4, 5, 2 :: nat]" by blast
  from grid22_detour a b show ?thesis by blast
qed

text \<open>C9: find_shortest_path returns None exactly when the mesh graph without the excluded
  edges has no path from \<open>start\<close> to \<open>end\<close>; and what it returns is the path of the first
  entry popped from the queue whose vertex is \<open>end\<close>, with \<open>end\<close> appended (None when no
  such entry is ever popped).\<close>

theorem find_shortest_path_none_iff:
  "(find_shortest_path perm m start end_v ex = None
      \<longleftrightarrow> \<not> (\<exists>r. path_between m ex start end_v r))
   \<and> find_shortest_path perm m start end_v ex =
       (case find (\<lambda>(v, p). v = end_v) (pops perm m ex end_v [(start, [])] {}) of
          None \<Rightarrow> None | Some (v, p) \<Rightarrow> Some (p @ [v]))"
proof -
  have "find_shortest_path perm m start end_v ex = None
      \<longleftrightarrow> \<not> (\<exists>r. path_between m ex start end_v r)"
    using find_shortest_path_correct[where perm = perm and m = m and start = start and end_v = end_v and ex = ex]
    by (cases "find_shortest_path perm m start end_v ex") auto
  moreover have "find_shortest_path perm m start end_v ex =
       (case find (\<lambda>(v, p). v = end_v) (pops perm m ex end_v [(start, [])] {}) of
          None \<Rightarrow> None | Some (v, p) \<Rightarrow> Some (p @ [v]))"
    unfolding find_shortest_path_def by (rule bfs_first_pop) simp
  ultimately show ?thesis by blast
qed

theorem find_shortest_path_none_iff_witness:
  "find_shortest_path (\<lambda>xs. xs) spur 0 2 {1} = None
   \<and> \<not> (\<exists>r. path_between spur {1} 0 2 r)"
proof -
  have "find_shortest_path (\<lambda>xs. xs) spur 0 2 {1} = None"
    by (simp add: path_eval spur_def wire_mesh_def lookup_Nil lookup_0 lookup_Suc lookup_numeral)
  with find_shortest_path_none_iff[of "\<lambda>xs. xs" spur 0 2 "{1}", THEN conjunct1]
  show ?thesis by simp
qed

end
